theory Spec2Isabelle
  imports Main
begin

section \<open>Regular expressions as Python's \<open>re\<close> module reads them\<close>

text \<open>
  \<open>main.py\<close> validates the submitted URL with \<open>re.compile(...).match(url)\<close> and cleans
  the reported title with \<open>re.sub\<close>. The pattern syntax used there is embedded as a
  datatype: literal runs, the dot (any character but a newline, as no \<open>DOTALL\<close> flag is
  given), bracket classes as lists of inclusive ranges, grouping by sequence and
  alternation, the postfix operators \<open>?\<close>, \<open>*\<close>, \<open>+\<close> and \<open>{n}\<close>, and the end anchor
  \<open>$\<close>. A Python \<open>str\<close> is modelled as a \<open>string\<close>; the patterns name ASCII characters only.
\<close>

datatype re =
    Lit string
  | Dot
  | Class "(char \<times> char) list"
  | Seq re re
  | Alt re re
  | Opt re
  | Star re
  | Plus re
  | Rep nat re
  | Eol

definition newline :: char where
  "newline = CHR 0x0A"

definition in_class :: "(char \<times> char) list \<Rightarrow> char \<Rightarrow> bool" where
  "in_class rs c =
     list_ex (\<lambda>(lo, hi). (of_char lo :: nat) \<le> of_char c \<and> (of_char c :: nat) \<le> of_char hi) rs"

text \<open>
  \<open>$\<close> without \<open>MULTILINE\<close> holds at the end of the string and just before a newline
  that is the last character of the string.
\<close>

definition at_eol :: "string \<Rightarrow> bool" where
  "at_eol s = (s = [] \<or> s = [newline])"

text \<open>The termination measure of the matcher: \<open>r+\<close> runs \<open>r*\<close>, \<open>r{n+1}\<close> runs \<open>r{n}\<close>.\<close>

fun weight :: "re \<Rightarrow> nat" where
  "weight (Seq r1 r2) = Suc (weight r1 + weight r2)"
| "weight (Alt r1 r2) = Suc (weight r1 + weight r2)"
| "weight (Opt r) = Suc (weight r)"
| "weight (Star r) = Suc (weight r)"
| "weight (Plus r) = Suc (Suc (weight r))"
| "weight (Rep n r) = Suc (n + weight r)"
| "weight r = 0"

text \<open>
  The matcher is the backtracking one: \<open>rests r s\<close> lists, in the order the engine tries
  them, every remainder of \<open>s\<close> that is left once \<open>r\<close> has matched a prefix of \<open>s\<close>.
  An iteration of \<open>*\<close> that consumes nothing is not repeated.
\<close>

function rests :: "re \<Rightarrow> string \<Rightarrow> string list" where
  "rests (Lit w) s = (if take (length w) s = w then [drop (length w) s] else [])"
| "rests Dot s = (case s of [] \<Rightarrow> [] | c # t \<Rightarrow> if c = newline then [] else [t])"
| "rests (Class rs) s = (case s of [] \<Rightarrow> [] | c # t \<Rightarrow> if in_class rs c then [t] else [])"
| "rests (Seq r1 r2) s = concat (map (rests r2) (rests r1 s))"
| "rests (Alt r1 r2) s = rests r1 s @ rests r2 s"
| "rests (Opt r) s = rests r s @ [s]"
| "rests (Star r) s =
     concat (map (\<lambda>t. if length t < length s then rests (Star r) t else []) (rests r s)) @ [s]"
| "rests (Plus r) s = concat (map (rests (Star r)) (rests r s))"
| "rests (Rep 0 r) s = [s]"
| "rests (Rep (Suc n) r) s = concat (map (rests (Rep n r)) (rests r s))"
| "rests Eol s = (if at_eol s then [s] else [])"
  by pat_completeness auto
termination
  by (relation "measures [\<lambda>(r, s). weight r, \<lambda>(r, s). length s]") auto

text \<open>\<open>pattern.match(s)\<close> tries the pattern at position 0 only and need not reach the end.\<close>

definition re_match :: "re \<Rightarrow> string \<Rightarrow> bool" where
  "re_match r s = (rests r s \<noteq> [])"

text \<open>
  What a pattern means, independently of the matcher: \<open>matches r s t\<close> holds when \<open>r\<close>
  can consume a prefix of \<open>s\<close> and leave \<open>t\<close>.
\<close>

inductive matches :: "re \<Rightarrow> string \<Rightarrow> string \<Rightarrow> bool" where
  m_Lit: "matches (Lit w) (w @ t) t"
| m_Dot: "c \<noteq> newline \<Longrightarrow> matches Dot (c # t) t"
| m_Class: "in_class rs c \<Longrightarrow> matches (Class rs) (c # t) t"
| m_Seq: "matches r1 s t \<Longrightarrow> matches r2 t u \<Longrightarrow> matches (Seq r1 r2) s u"
| m_AltL: "matches r1 s t \<Longrightarrow> matches (Alt r1 r2) s t"
| m_AltR: "matches r2 s t \<Longrightarrow> matches (Alt r1 r2) s t"
| m_OptN: "matches (Opt r) s s"
| m_OptS: "matches r s t \<Longrightarrow> matches (Opt r) s t"
| m_StarN: "matches (Star r) s s"
| m_StarS: "matches r s t \<Longrightarrow> matches (Star r) t u \<Longrightarrow> matches (Star r) s u"
| m_Plus: "matches r s t \<Longrightarrow> matches (Star r) t u \<Longrightarrow> matches (Plus r) s u"
| m_Rep0: "matches (Rep 0 r) s s"
| m_RepS: "matches r s t \<Longrightarrow> matches (Rep n r) t u \<Longrightarrow> matches (Rep (Suc n) r) s u"
| m_Eol: "at_eol s \<Longrightarrow> matches Eol s s"

subsection \<open>The URL pattern of \<open>download_video\<close> (main.py, lines 296 to 300)\<close>

text \<open>
  \<^verbatim>\<open>^(https?://)?(www\.)?(youtube\.com|youtu\.be)/(watch\?v=|embed/|v/|.+\?v=)?([a-zA-Z0-9_-]{11})(.*)?$\<close>
  The leading \<open>^\<close> is where \<open>match\<close> starts anyway.
\<close>

definition id_class :: "(char \<times> char) list" where
  "id_class = [(CHR ''a'', CHR ''z''), (CHR ''A'', CHR ''Z''), (CHR ''0'', CHR ''9''),
               (CHR ''_'', CHR ''_''), (CHR ''-'', CHR ''-'')]"

definition scheme_group :: re where
  "scheme_group = Opt (Seq (Lit ''http'') (Seq (Opt (Lit ''s'')) (Lit ''://'')))"

definition www_group :: re where
  "www_group = Opt (Lit ''www.'')"

definition host_group :: re where
  "host_group = Alt (Lit ''youtube.com'') (Lit ''youtu.be'')"

definition marker_group :: re where
  "marker_group =
     Opt (Alt (Lit ''watch?v='') (Alt (Lit ''embed/'') (Alt (Lit ''v/'')
           (Seq (Plus Dot) (Lit ''?v='')))))"

definition id_group :: re where
  "id_group = Rep 11 (Class id_class)"

definition tail_group :: re where
  "tail_group = Opt (Star Dot)"

definition youtube_regex :: re where
  "youtube_regex =
     Seq scheme_group (Seq www_group (Seq host_group (Seq (Lit ''/'')
    (Seq marker_group (Seq id_group (Seq tail_group Eol))))))"

definition valid_url :: "string \<Rightarrow> bool" where
  "valid_url youtube_url = re_match youtube_regex youtube_url"

subsection \<open>What the validator is specified to look for\<close>

text \<open>
  The identifier segment and the positions in which it is recognised, stated without the
  pattern: an optional scheme, an optional \<open>www.\<close>, one of the two hosts, a slash, and then
  either nothing, one of the fixed markers, or any non-empty run without a newline that
  ends in \<open>?v=\<close>. These are bool-valued functions, so they can be evaluated on a URL.
\<close>

definition id_char :: "char \<Rightarrow> bool" where
  "id_char c = in_class id_class c"

definition id_segment :: "string \<Rightarrow> bool" where
  "id_segment v = (length v = 11 \<and> list_all id_char v)"

definition no_newline :: "string \<Rightarrow> bool" where
  "no_newline x = (newline \<notin> set x)"

definition schemes :: "string list" where
  "schemes = ['''', ''http://'', ''https://'']"

definition subdomains :: "string list" where
  "subdomains = ['''', ''www.'']"

definition hosts :: "string list" where
  "hosts = [''youtube.com'', ''youtu.be'']"

definition fixed_markers :: "string list" where
  "fixed_markers = ['''', ''watch?v='', ''embed/'', ''v/'']"

definition marker :: "string \<Rightarrow> bool" where
  "marker m =
     (m \<in> set fixed_markers \<or>
      (3 < length m \<and> drop (length m - 3) m = ''?v='' \<and> no_newline (take (length m - 3) m)))"

definition heads :: "string list" where
  "heads = concat (map (\<lambda>sch. concat (map (\<lambda>w. map (\<lambda>h. sch @ w @ h @ ''/'') hosts) subdomains)) schemes)"

definition id_position :: "string \<Rightarrow> bool" where
  "id_position p = list_ex (\<lambda>pre. take (length pre) p = pre \<and> marker (drop (length pre) p)) heads"

definition has_id_segment :: "string \<Rightarrow> bool" where
  "has_id_segment s =
     list_ex (\<lambda>i. id_position (take i s) \<and> id_segment (take 11 (drop i s))) [0..<Suc (length s)]"

section \<open>The download service of \<open>main.py\<close>\<close>

subsection \<open>Configuration (lines 17 to 19)\<close>

definition DOWNLOAD_DIR :: string where
  "DOWNLOAD_DIR = ''downloads''"

definition MAX_CONCURRENT_DOWNLOADS :: nat where
  "MAX_CONCURRENT_DOWNLOADS = 3"

definition MAX_VIDEO_DURATION_SECONDS :: int where
  "MAX_VIDEO_DURATION_SECONDS = 3600"

subsection \<open>The counting gate: \<open>asyncio.Semaphore\<close> (line 25)\<close>

text \<open>
  The semaphore is a library object; it is modelled by its documented behaviour. It holds a
  counter. \<open>acquire\<close> decrements the counter when it is positive and otherwise makes the
  caller wait (\<open>None\<close>: no slot is taken), \<open>release\<close> increments it, and \<open>locked\<close> tells
  whether the counter is zero. (Later versions of the library also answer \<open>locked\<close> while
  a waiter that has been woken has not run yet; the queue of waiters is not modelled.)
\<close>

record semaphore =
  sem_value :: nat

definition Semaphore :: "nat \<Rightarrow> semaphore" where
  "Semaphore n = \<lparr>sem_value = n\<rparr>"

definition locked :: "semaphore \<Rightarrow> bool" where
  "locked sem = (sem_value sem = 0)"

definition acquire :: "semaphore \<Rightarrow> semaphore option" where
  "acquire sem = (if locked sem then None else Some (sem\<lparr>sem_value := sem_value sem - 1\<rparr>))"

definition release :: "semaphore \<Rightarrow> semaphore" where
  "release sem = sem\<lparr>sem_value := sem_value sem + 1\<rparr>"

subsection \<open>What the media-fetch library hands back\<close>

text \<open>
  \<open>yt_dlp\<close> is outside the repository. A call of \<open>extract_info\<close> either returns an info
  dictionary, of which the worker reads the keys \<open>duration\<close> and \<open>title\<close> (\<open>None\<close> when the
  key is absent), or raises. The raised exception is one of three kinds, as the \<open>except\<close>
  clauses of the worker distinguish them: the library's \<open>DownloadError\<close>, any other
  exception derived from \<open>Exception\<close>, and an exception outside that hierarchy
  (\<open>KeyboardInterrupt\<close>, \<open>SystemExit\<close>, \<open>asyncio.CancelledError\<close>). Each carries its text.
  Durations are whole seconds.
\<close>

datatype exn = DownloadError string | Exception string | BaseException string

record info_dict =
  duration :: "int option"
  title :: "string option"

text \<open>The dictionary \<open>{"status": ..., "message": ...}\<close> that the worker and the handler build.\<close>

record outcome =
  status :: string
  message :: string

text \<open>
  One run of the worker meets one behaviour of its surroundings: what the metadata probe
  (\<open>download=False\<close>) does for a URL, what \<open>uuid.uuid4().hex\<close> yields, and what the fetch
  (\<open>download=True\<close>) does for a URL and an output template.
\<close>

record env =
  probe :: "string \<Rightarrow> exn + info_dict"
  uuid4_hex :: string
  fetch :: "string \<Rightarrow> string \<Rightarrow> exn + info_dict"

text \<open>What a run does to the outside, in order.\<close>

datatype event = Acquire | Release | Probe string | Fetch string string

subsection \<open>Filename derivation (lines 52 to 59)\<close>

text \<open>
  \<^verbatim>\<open>re.sub(r'[<>:"/\\|?*]', '_', video_title)\<close>: the pattern is one bracket class of nine
  single characters, so every character of the class is replaced on its own and every
  other character is kept.
\<close>

definition unsafe_chars :: string where
  "unsafe_chars = [CHR ''<'', CHR ''>'', CHR '':'', CHR 0x22, CHR ''/'', CHR 0x5C, CHR ''|'',
                   CHR ''?'', CHR ''*'']"

definition unsafe_class :: "(char \<times> char) list" where
  "unsafe_class = map (\<lambda>c. (c, c)) unsafe_chars"

definition re_sub_class :: "(char \<times> char) list \<Rightarrow> string \<Rightarrow> string \<Rightarrow> string" where
  "re_sub_class rs repl s = concat (map (\<lambda>c. if re_match (Class rs) [c] then repl else [c]) s)"

definition sanitized_title :: "string \<Rightarrow> string" where
  "sanitized_title video_title = re_sub_class unsafe_class ''_'' video_title"

text \<open>\<^verbatim>\<open>info_dict.get('title', 'video')\<close>\<close>

definition video_title :: "info_dict \<Rightarrow> string" where
  "video_title info = (case title info of None \<Rightarrow> ''video'' | Some t \<Rightarrow> t)"

text \<open>\<^verbatim>\<open>f"{sanitized_title}_{uuid.uuid4().hex}.%(ext)s"\<close>\<close>

definition unique_filename :: "string \<Rightarrow> string \<Rightarrow> string" where
  "unique_filename reported_title hex = sanitized_title reported_title @ ''_'' @ hex @ ''.%(ext)s''"

text \<open>\<open>os.path.join\<close> of two components, as \<open>posixpath\<close> has it.\<close>

definition os_path_join :: "string \<Rightarrow> string \<Rightarrow> string" where
  "os_path_join a b =
     (case b of
        c # _ \<Rightarrow>
          if c = CHR ''/'' then b
          else if a = [] \<or> last a = CHR ''/'' then a @ b else a @ ''/'' @ b
      | [] \<Rightarrow> if a = [] \<or> last a = CHR ''/'' then a else a @ ''/'')"

definition outtmpl :: "string \<Rightarrow> string \<Rightarrow> string \<Rightarrow> string" where
  "outtmpl download_path reported_title hex =
     os_path_join download_path (unique_filename reported_title hex)"

subsection \<open>The worker \<open>download_video_task\<close> (lines 28 to 87)\<close>

text \<open>\<^verbatim>\<open>if duration and duration > MAX_VIDEO_DURATION_SECONDS\<close>: a missing or zero duration is falsy.\<close>

definition exceeds_limit :: "int option \<Rightarrow> bool" where
  "exceeds_limit d =
     (case d of None \<Rightarrow> False | Some n \<Rightarrow> n \<noteq> 0 \<and> n > MAX_VIDEO_DURATION_SECONDS)"

text \<open>How an f-string prints an optional title.\<close>

definition str_of :: "string option \<Rightarrow> string" where
  "str_of t = (case t of None \<Rightarrow> ''None'' | Some s \<Rightarrow> s)"

text \<open>
  The block under \<open>async with\<close> (lines 35 to 75): the events it causes, and the value it
  returns (\<open>Inr\<close>) or the exception that leaves it (\<open>Inl\<close>). The \<open>print\<close> calls are left out.
\<close>

definition guarded_block :: "env \<Rightarrow> string \<Rightarrow> string \<Rightarrow> event list \<times> (exn + outcome)" where
  "guarded_block e youtube_url download_path =
     (case probe e youtube_url of
        Inl ex \<Rightarrow> ([Probe youtube_url], Inl ex)
      | Inr info \<Rightarrow>
          if exceeds_limit (duration info)
          then ([Probe youtube_url],
                Inr \<lparr>status = ''error'', message = ''Video duration exceeds the allowed limit.''\<rparr>)
          else
            let tmpl = outtmpl download_path (video_title info) (uuid4_hex e)
            in (case fetch e youtube_url tmpl of
                  Inl ex \<Rightarrow> ([Probe youtube_url, Fetch youtube_url tmpl], Inl ex)
                | Inr info2 \<Rightarrow>
                    ([Probe youtube_url, Fetch youtube_url tmpl],
                     Inr \<lparr>status = ''success'',
                          message = ''Successfully downloaded '' @ str_of (title info2)\<rparr>)))"

text \<open>
  \<open>async with download_semaphore\<close>: the slot is acquired on entry, or the caller waits
  (\<open>None\<close>); on every way out of the block, by return or by exception, it is released.
\<close>

definition async_with ::
  "semaphore \<Rightarrow> event list \<times> (exn + 'a) \<Rightarrow> (event list \<times> (exn + 'a) \<times> semaphore) option" where
  "async_with sem block =
     (case acquire sem of
        None \<Rightarrow> None
      | Some held \<Rightarrow> Some (Acquire # fst block @ [Release], snd block, release held))"

text \<open>The \<open>except\<close> clauses (lines 77 to 84). \<open>except Exception\<close> lets the third kind pass.\<close>

fun handlers :: "exn \<Rightarrow> exn + outcome" where
  "handlers (DownloadError m) =
     Inr \<lparr>status = ''error'', message = ''Failed to download video: '' @ m\<rparr>"
| "handlers (Exception m) =
     Inr \<lparr>status = ''error'',
          message = ''An unexpected error occurred during download. Please try again later.''\<rparr>"
| "handlers (BaseException m) = Inl (BaseException m)"

text \<open>
  The whole task: the events, the returned dictionary or the exception that escapes, and
  the semaphore afterwards; \<open>None\<close> while the task waits for a slot.
\<close>

definition download_video_task ::
  "env \<Rightarrow> string \<Rightarrow> string \<Rightarrow> string \<Rightarrow> semaphore
     \<Rightarrow> (event list \<times> (exn + outcome) \<times> semaphore) option" where
  "download_video_task e youtube_url download_path request_id download_semaphore =
     (case async_with download_semaphore (guarded_block e youtube_url download_path) of
        None \<Rightarrow> None
      | Some (trace, r, sem) \<Rightarrow>
          Some (trace, (case r of Inl ex \<Rightarrow> handlers ex | Inr res \<Rightarrow> Inr res), sem))"

text \<open>The two fixed error outcomes of the worker.\<close>

definition duration_error :: outcome where
  "duration_error = \<lparr>status = ''error'', message = ''Video duration exceeds the allowed limit.''\<rparr>"

definition unexpected_error :: outcome where
  "unexpected_error =
     \<lparr>status = ''error'',
      message = ''An unexpected error occurred during download. Please try again later.''\<rparr>"

text \<open>Reading a trace: which events are fetches, and which output templates they were given.\<close>

definition is_fetch :: "event \<Rightarrow> bool" where
  "is_fetch ev = (case ev of Fetch u t \<Rightarrow> True | _ \<Rightarrow> False)"

definition fetch_templates :: "event list \<Rightarrow> string list" where
  "fetch_templates trace = concat (map (\<lambda>ev. case ev of Fetch u t \<Rightarrow> [t] | _ \<Rightarrow> []) trace)"

subsection \<open>The handler of \<open>POST /download\<close> (lines 278 to 321)\<close>

text \<open>
  The application state the handler works on: the semaphore and the background tasks
  scheduled so far, each with the arguments given to \<open>add_task\<close>. A raised
  \<open>HTTPException\<close> and a returned \<open>JSONResponse\<close> are the two kinds of answer; each has a
  status code and the dictionary passed as \<open>detail\<close> or \<open>content\<close>. The identifier
  \<open>request_id\<close>, the first eight characters of a fresh \<open>uuid4\<close>, is an argument here.

  The \<open>def\<close> line of the handler (lines 279 to 283) lists \<open>background_tasks\<close> and
  \<open>request\<close>, which have no default, after \<open>youtube_url\<close>, which has one; Python refuses
  to compile such a signature. The body is modelled as it is written.
\<close>

record app =
  download_semaphore :: semaphore
  background_tasks :: "(string \<times> string \<times> string) list"

datatype response = HTTPException nat outcome | JSONResponse nat outcome

definition download_video :: "string \<Rightarrow> string \<Rightarrow> app \<Rightarrow> response \<times> app" where
  "download_video youtube_url request_id st =
     (if \<not> valid_url youtube_url then
        (HTTPException 400
           \<lparr>status = ''error'',
            message = ''Invalid YouTube URL provided. Please enter a valid YouTube link (e.g., https://www.youtube.com/watch?v=example or https://youtu.be/example).''\<rparr>,
         st)
      else if locked (download_semaphore st) then
        (HTTPException 429
           \<lparr>status = ''error'',
            message = ''Server is currently busy with other downloads. Please try again shortly.''\<rparr>,
         st)
      else
        (JSONResponse 202
           \<lparr>status = ''processing'',
            message = ''Download initiated for '' @ youtube_url @ ''. This process runs in the background.''\<rparr>,
         st\<lparr>background_tasks := background_tasks st @ [(youtube_url, DOWNLOAD_DIR, request_id)]\<rparr>))"

fun status_code :: "response \<Rightarrow> nat" where
  "status_code (HTTPException c d) = c"
| "status_code (JSONResponse c d) = c"

text \<open>
  The JSON document that goes out. The framework is outside the repository; by its
  documentation a \<open>JSONResponse\<close> carries its content as it is, and a raised
  \<open>HTTPException\<close> is answered by the default handler with the object
  \<open>{"detail": detail}\<close>. The page in \<open>HTML_FORM\<close> reads \<open>data.message\<close> from the top
  level of that document for every answer (lines 230 to 236).
\<close>

datatype json = JString string | JObject "(string \<times> json) list"

definition to_json :: "outcome \<Rightarrow> json" where
  "to_json d = JObject [(''message'', JString (message d)), (''status'', JString (status d))]"

fun body :: "response \<Rightarrow> json" where
  "body (HTTPException c d) = JObject [(''detail'', to_json d)]"
| "body (JSONResponse c d) = to_json d"

fun field :: "string \<Rightarrow> json \<Rightarrow> json option" where
  "field k (JObject kvs) = map_of kvs k"
| "field k (JString v) = None"

subsection \<open>Several workers on one gate\<close>

text \<open>
  Workers run interleaved on one event loop. Each is in one phase: started but still before
  the \<open>async with\<close> of line 34 (\<open>Waiting\<close>), inside it at the probe of line 44
  (\<open>Probing\<close>) or at the fetch of line 73 (\<open>Fetching\<close>), or past it (\<open>Finished\<close>).
  \<open>Enter\<close> acquires the slot; \<open>ProbeEnds i True\<close> goes on to the fetch, \<open>ProbeEnds i False\<close>
  leaves the block (the probe raised, or the duration is over the limit) and releases;
  \<open>FetchEnds\<close> leaves the block, by return or by exception, and releases. An action moves one worker along its code; it
  is not enabled (\<open>None\<close>) when that worker is not at that point, or when it would have to
  wait for a slot. Any order of enabled actions is allowed, which is at least as much as
  the event loop allows.
\<close>

datatype phase = Waiting | Probing | Fetching | Finished

record system =
  gate :: semaphore
  workers :: "phase list"

datatype action = Dispatch | Enter nat | ProbeEnds nat bool | FetchEnds nat

definition at_phase :: "system \<Rightarrow> nat \<Rightarrow> phase \<Rightarrow> bool" where
  "at_phase s i p = (i < length (workers s) \<and> workers s ! i = p)"

fun step :: "action \<Rightarrow> system \<Rightarrow> system option" where
  "step Dispatch s = Some (s\<lparr>workers := workers s @ [Waiting]\<rparr>)"
| "step (Enter i) s =
     (if at_phase s i Waiting then
        (case acquire (gate s) of
           None \<Rightarrow> None
         | Some g \<Rightarrow> Some (s\<lparr>gate := g, workers := (workers s)[i := Probing]\<rparr>))
      else None)"
| "step (ProbeEnds i goes_on) s =
     (if at_phase s i Probing then
        (if goes_on then Some (s\<lparr>workers := (workers s)[i := Fetching]\<rparr>)
         else Some (s\<lparr>gate := release (gate s), workers := (workers s)[i := Finished]\<rparr>))
      else None)"
| "step (FetchEnds i) s =
     (if at_phase s i Fetching then
        Some (s\<lparr>gate := release (gate s), workers := (workers s)[i := Finished]\<rparr>)
      else None)"

fun run :: "action list \<Rightarrow> system \<Rightarrow> system option" where
  "run [] s = Some s"
| "run (a # as) s = (case step a s of None \<Rightarrow> None | Some s' \<Rightarrow> run as s')"

definition initial :: "nat \<Rightarrow> system" where
  "initial k = \<lparr>gate = Semaphore k, workers = []\<rparr>"

definition holding :: "phase \<Rightarrow> bool" where
  "holding p = (p = Probing \<or> p = Fetching)"

definition holders :: "system \<Rightarrow> nat" where
  "holders s = length (filter holding (workers s))"

definition fetching :: "system \<Rightarrow> nat" where
  "fetching s = length (filter (\<lambda>p. p = Fetching) (workers s))"

text \<open>Slots held and slots free add up to the capacity.\<close>

definition balanced :: "nat \<Rightarrow> system \<Rightarrow> bool" where
  "balanced k s = (holders s + sem_value (gate s) = k)"











subsection \<open>Sample surroundings\<close>

text \<open>A probe that succeeds and a fetch that fails with an unexpected error.\<close>

definition failing_fetch_env :: env where
  "failing_fetch_env =
     \<lparr>probe = (\<lambda>url. Inr \<lparr>duration = Some 212, title = Some ''Never Gonna Give You Up''\<rparr>),
      uuid4_hex = ''0123456789abcdef0123456789abcdef'',
      fetch = (\<lambda>url tmpl. Inl (Exception ''disk full''))\<rparr>"

text \<open>A probe that reports 4000 seconds; a probe interrupted from the keyboard.\<close>

definition long_video_env :: env where
  "long_video_env =
     \<lparr>probe = (\<lambda>url. Inr \<lparr>duration = Some 4000, title = Some ''Long talk''\<rparr>),
      uuid4_hex = ''0123456789abcdef0123456789abcdef'',
      fetch = (\<lambda>url tmpl. Inr \<lparr>duration = Some 4000, title = Some ''Long talk''\<rparr>)\<rparr>"

definition interrupted_env :: env where
  "interrupted_env =
     \<lparr>probe = (\<lambda>url. Inl (BaseException ''KeyboardInterrupt'')),
      uuid4_hex = ''0123456789abcdef0123456789abcdef'',
      fetch = (\<lambda>url tmpl. Inl (BaseException ''KeyboardInterrupt''))\<rparr>"

text \<open>A probe and a fetch that both succeed.\<close>

definition rickroll_env :: env where
  "rickroll_env =
     \<lparr>probe = (\<lambda>url. Inr \<lparr>duration = Some 212, title = Some ''Never Gonna Give You Up''\<rparr>),
      uuid4_hex = ''fedcba9876543210fedcba9876543210'',
      fetch = (\<lambda>url tmpl. Inr \<lparr>duration = Some 212, title = Some ''Never Gonna Give You Up''\<rparr>)\<rparr>"

text \<open>A second dispatch for the same title whose draw of \<open>uuid4\<close> comes out the same.\<close>

definition colliding_env :: env where
  "colliding_env =
     \<lparr>probe = (\<lambda>url. Inr \<lparr>duration = Some 212, title = Some ''Never Gonna Give You Up''\<rparr>),
      uuid4_hex = ''0123456789abcdef0123456789abcdef'',
      fetch = (\<lambda>url tmpl. Inr \<lparr>duration = Some 212, title = Some ''Never Gonna Give You Up''\<rparr>)\<rparr>"

text \<open>An application with all three slots free, and one with none.\<close>

definition idle_app :: app where
  "idle_app = \<lparr>download_semaphore = Semaphore 3, background_tasks = []\<rparr>"

definition busy_app :: app where
  "busy_app = \<lparr>download_semaphore = Semaphore 0, background_tasks = []\<rparr>"

section \<open>The matcher computes the meaning of a pattern\<close>

lemma matches_suffix: "matches r s t \<Longrightarrow> \<exists>w. s = w @ t"
proof (induction rule: matches.induct)
  case (m_Seq r1 s t r2 u)
  then obtain w1 w2 where "s = w1 @ t" "t = w2 @ u" by blast
  then have "s = (w1 @ w2) @ u" by simp
  then show ?case by blast
next
  case (m_StarS r s t u)
  then obtain w1 w2 where "s = w1 @ t" "t = w2 @ u" by blast
  then have "s = (w1 @ w2) @ u" by simp
  then show ?case by blast
next
  case (m_Plus r s t u)
  then obtain w1 w2 where "s = w1 @ t" "t = w2 @ u" by blast
  then have "s = (w1 @ w2) @ u" by simp
  then show ?case by blast
next
  case (m_RepS r s t n u)
  then obtain w1 w2 where "s = w1 @ t" "t = w2 @ u" by blast
  then have "s = (w1 @ w2) @ u" by simp
  then show ?case by blast
next
  case (m_Dot c t)
  have "c # t = [c] @ t" by simp
  then show ?case by blast
next
  case (m_Class rs c t)
  have "c # t = [c] @ t" by simp
  then show ?case by blast
qed simp_all

lemma matches_same_length: "matches r s t \<Longrightarrow> length s \<le> length t \<Longrightarrow> t = s"
  by (drule matches_suffix) auto

declare rests.simps(7) [simp del]

lemma in_rests_Star:
  "t \<in> set (rests (Star r) s) \<longleftrightarrow>
     t = s \<or> (\<exists>u \<in> set (rests r s). length u < length s \<and> t \<in> set (rests (Star r) u))"
  by (subst rests.simps(7)) auto


lemma rests_sound: "t \<in> set (rests r s) \<Longrightarrow> matches r s t"
proof (induction r s arbitrary: t rule: rests.induct)
  case (1 w s)
  then have "take (length w) s = w" and t: "t = drop (length w) s"
    by (auto split: if_splits)
  have "take (length w) s @ drop (length w) s = s" by (rule append_take_drop_id)
  with \<open>take (length w) s = w\<close> t have "w @ t = s" by simp
  then show ?case using m_Lit[of w t] by simp
next
  case (2 s)
  then obtain c where "s = c # t" "c \<noteq> newline"
    by (cases s) (auto split: if_splits)
  then show ?case by (simp add: m_Dot)
next
  case (3 rs s)
  then obtain c where "s = c # t" "in_class rs c"
    by (cases s) (auto split: if_splits)
  then show ?case by (simp add: m_Class)
next
  case (4 r1 r2 s)
  from 4(3) obtain u where u: "u \<in> set (rests r1 s)" "t \<in> set (rests r2 u)" by auto
  have "matches r1 s u" using 4(1) u(1) by simp
  moreover have "matches r2 u t" using 4(2) u by simp
  ultimately show ?case by (rule m_Seq)
next
  case (5 r1 r2 s)
  from 5(3) have "t \<in> set (rests r1 s) \<or> t \<in> set (rests r2 s)" by simp
  then show ?case using 5(1,2) m_AltL m_AltR by blast
next
  case (6 r s)
  from 6(2) have "t \<in> set (rests r s) \<or> t = s" by auto
  then show ?case using 6(1) m_OptN m_OptS by blast
next
  case (7 r s)
  from 7(3) consider "t = s"
    | u where "u \<in> set (rests r s)" "length u < length s" "t \<in> set (rests (Star r) u)"
    using in_rests_Star by blast
  then show ?case
  proof cases
    case 1
    then show ?thesis by (simp add: m_StarN)
  next
    case 2
    have "matches r s u" using 7(1) 2(1) by simp
    moreover have "matches (Star r) u t" using 7(2) 2 by simp
    ultimately show ?thesis by (rule m_StarS)
  qed
next
  case (8 r s)
  from 8(3) obtain u where u: "u \<in> set (rests r s)" "t \<in> set (rests (Star r) u)" by auto
  have "matches r s u" using 8(1) u(1) by simp
  moreover have "matches (Star r) u t" using 8(2) u by simp
  ultimately show ?case by (rule m_Plus)
next
  case (9 r s)
  then show ?case by (simp add: m_Rep0)
next
  case (10 n r s)
  from 10(3) obtain u where u: "u \<in> set (rests r s)" "t \<in> set (rests (Rep n r) u)" by auto
  have "matches r s u" using 10(1) u(1) by simp
  moreover have "matches (Rep n r) u t" using 10(2) u by simp
  ultimately show ?case by (rule m_RepS)
next
  case (11 s)
  then have "at_eol s" "t = s" by (auto split: if_splits)
  then show ?case by (simp add: m_Eol)
qed

lemma rests_Star_refl: "s \<in> set (rests (Star r) s)"
  by (subst rests.simps(7)) simp

lemma rests_Star_step:
  "u \<in> set (rests r s) \<Longrightarrow> length u < length s \<Longrightarrow> t \<in> set (rests (Star r) u)
   \<Longrightarrow> t \<in> set (rests (Star r) s)"
  by (subst rests.simps(7)) auto

lemma rests_complete: "matches r s t \<Longrightarrow> t \<in> set (rests r s)"
proof (induction rule: matches.induct)
  case (m_Lit w t)
  show ?case by simp
next
  case (m_Dot c t)
  then show ?case by simp
next
  case (m_Class rs c t)
  then show ?case by simp
next
  case (m_Seq r1 s t r2 u)
  then show ?case by auto
next
  case (m_AltL r1 s t r2)
  then show ?case by simp
next
  case (m_AltR r2 s t r1)
  then show ?case by simp
next
  case (m_OptN r s)
  show ?case by simp
next
  case (m_OptS r s t)
  then show ?case by simp
next
  case (m_StarN r s)
  show ?case by (rule rests_Star_refl)
next
  case (m_StarS r s t u)
  have a: "t \<in> set (rests r s)" by fact
  have b: "u \<in> set (rests (Star r) t)" by fact
  have c: "matches r s t" by fact
  show ?case
  proof (cases "length t < length s")
    case True
    from a True b show ?thesis by (rule rests_Star_step)
  next
    case False
    with c have "t = s" by (simp add: matches_same_length)
    with b show ?thesis by simp
  qed
next
  case (m_Plus r s t u)
  then show ?case by auto
next
  case (m_Rep0 r s)
  show ?case by simp
next
  case (m_RepS r s t n u)
  then show ?case by auto
next
  case (m_Eol s)
  then show ?case by simp
qed

lemma set_rests: "set (rests r s) = {t. matches r s t}"
  using rests_sound rests_complete by blast

lemma re_match_iff: "re_match r s \<longleftrightarrow> (\<exists>t. matches r s t)"
proof -
  have "re_match r s \<longleftrightarrow> set (rests r s) \<noteq> {}" by (simp add: re_match_def)
  then show ?thesis by (simp add: set_rests)
qed

lemma matches_Lit_iff: "matches (Lit w) s t \<longleftrightarrow> s = w @ t"
  by (subst matches.simps) auto

lemma matches_Dot_iff: "matches Dot s t \<longleftrightarrow> (\<exists>c. s = c # t \<and> c \<noteq> newline)"
  by (subst matches.simps) auto

lemma matches_Class_iff: "matches (Class rs) s t \<longleftrightarrow> (\<exists>c. s = c # t \<and> in_class rs c)"
  by (subst matches.simps) auto

lemma matches_Seq_iff: "matches (Seq a b) s t \<longleftrightarrow> (\<exists>u. matches a s u \<and> matches b u t)"
  by (subst matches.simps) auto

lemma matches_Alt_iff: "matches (Alt a b) s t \<longleftrightarrow> matches a s t \<or> matches b s t"
  by (subst matches.simps) auto

lemma matches_Opt_iff: "matches (Opt r) s t \<longleftrightarrow> t = s \<or> matches r s t"
  by (subst matches.simps) auto

lemma matches_Plus_iff: "matches (Plus r) s t \<longleftrightarrow> (\<exists>u. matches r s u \<and> matches (Star r) u t)"
  by (subst matches.simps) auto

lemma matches_Eol_iff: "matches Eol s t \<longleftrightarrow> t = s \<and> at_eol s"
  by (subst matches.simps) auto

lemma matches_Star_unfold:
  "matches (Star r) s t \<longleftrightarrow> t = s \<or> (\<exists>u. matches r s u \<and> matches (Star r) u t)"
  by (subst matches.simps) auto

lemma matches_Rep0_iff: "matches (Rep 0 r) s t \<longleftrightarrow> t = s"
  by (subst matches.simps) auto

lemma matches_RepSuc_iff:
  "matches (Rep (Suc n) r) s t \<longleftrightarrow> (\<exists>u. matches r s u \<and> matches (Rep n r) u t)"
  by (subst matches.simps) auto

section \<open>The URL validator\<close>

lemma matches_Star_Dot: "matches (Star Dot) s t \<longleftrightarrow> (\<exists>x. s = x @ t \<and> no_newline x)"
proof
  assume "matches (Star Dot) s t"
  then show "\<exists>x. s = x @ t \<and> no_newline x"
  proof (induction "Star Dot" s t rule: matches.induct)
    case (m_StarN s)
    have "s = [] @ s \<and> no_newline []" by (simp add: no_newline_def)
    then show ?case by blast
  next
    case (m_StarS s t u)
    from m_StarS(1) obtain c where c: "s = c # t" "c \<noteq> newline"
      by (auto simp: matches_Dot_iff)
    from m_StarS(3) obtain x where x: "t = x @ u" "no_newline x" by blast
    have "s = (c # x) @ u \<and> no_newline (c # x)" using c x by (auto simp: no_newline_def)
    then show ?case by blast
  qed
next
  assume "\<exists>x. s = x @ t \<and> no_newline x"
  then obtain x where "s = x @ t" "no_newline x" by blast
  then show "matches (Star Dot) s t"
  proof (induction x arbitrary: s)
    case Nil
    then show ?case by (simp add: m_StarN)
  next
    case (Cons c x)
    have "matches Dot s (x @ t)" using Cons.prems by (auto simp: matches_Dot_iff no_newline_def)
    moreover have "matches (Star Dot) (x @ t) t" using Cons by (auto simp: no_newline_def)
    ultimately show ?case by (rule m_StarS)
  qed
qed

lemma matches_Rep_Class:
  "matches (Rep n (Class rs)) s t \<longleftrightarrow> (\<exists>v. s = v @ t \<and> length v = n \<and> list_all (in_class rs) v)"
proof (induction n arbitrary: s)
  case 0
  show ?case by (auto simp: matches_Rep0_iff)
next
  case (Suc n)
  show ?case
  proof
    assume "matches (Rep (Suc n) (Class rs)) s t"
    then obtain c u where c: "s = c # u" "in_class rs c" and u: "matches (Rep n (Class rs)) u t"
      by (auto simp: matches_RepSuc_iff matches_Class_iff)
    from u Suc obtain v where v: "u = v @ t" "length v = n" "list_all (in_class rs) v" by blast
    have "s = (c # v) @ t \<and> length (c # v) = Suc n \<and> list_all (in_class rs) (c # v)"
      using c v by simp
    then show "\<exists>v. s = v @ t \<and> length v = Suc n \<and> list_all (in_class rs) v" by blast
  next
    assume "\<exists>v. s = v @ t \<and> length v = Suc n \<and> list_all (in_class rs) v"
    then obtain v where v: "s = v @ t" "length v = Suc n" "list_all (in_class rs) v" by blast
    then obtain c w where cw: "v = c # w" by (cases v) auto
    have "matches (Class rs) s (w @ t)" using v cw by (simp add: matches_Class_iff)
    moreover have "matches (Rep n (Class rs)) (w @ t) t"
      using Suc[of "w @ t"] v cw by auto
    ultimately show "matches (Rep (Suc n) (Class rs)) s t" by (rule m_RepS)
  qed
qed

lemma matches_Plus_Dot:
  "matches (Plus Dot) s t \<longleftrightarrow> (\<exists>x. x \<noteq> [] \<and> s = x @ t \<and> no_newline x)"
proof
  assume "matches (Plus Dot) s t"
  then obtain c u x where "s = c # u" "c \<noteq> newline" "u = x @ t" "no_newline x"
    by (auto simp: matches_Plus_iff matches_Dot_iff matches_Star_Dot)
  then have "c # x \<noteq> [] \<and> s = (c # x) @ t \<and> no_newline (c # x)"
    by (auto simp: no_newline_def)
  then show "\<exists>x. x \<noteq> [] \<and> s = x @ t \<and> no_newline x" by blast
next
  assume "\<exists>x. x \<noteq> [] \<and> s = x @ t \<and> no_newline x"
  then obtain c x where x: "s = (c # x) @ t" "no_newline (c # x)" by (metis list.exhaust)
  have "matches Dot s (x @ t)" using x by (auto simp: matches_Dot_iff no_newline_def)
  moreover have "matches (Star Dot) (x @ t) t"
    using x by (auto simp: matches_Star_Dot no_newline_def)
  ultimately show "matches (Plus Dot) s t" by (rule m_Plus)
qed

lemma scheme_group_iff: "matches scheme_group s t \<longleftrightarrow> (\<exists>sch \<in> set schemes. s = sch @ t)"
  unfolding scheme_group_def schemes_def
  by (auto simp: matches_Opt_iff matches_Seq_iff matches_Lit_iff)

lemma www_group_iff: "matches www_group s t \<longleftrightarrow> (\<exists>w \<in> set subdomains. s = w @ t)"
  unfolding www_group_def subdomains_def
  by (auto simp: matches_Opt_iff matches_Lit_iff)

lemma host_group_iff: "matches host_group s t \<longleftrightarrow> (\<exists>h \<in> set hosts. s = h @ t)"
  unfolding host_group_def hosts_def
  by (auto simp: matches_Alt_iff matches_Lit_iff)

lemma id_group_iff: "matches id_group s t \<longleftrightarrow> (\<exists>v. s = v @ t \<and> id_segment v)"
proof -
  have "list_all (in_class id_class) v = list_all id_char v" for v
    by (simp add: id_char_def[abs_def])
  then show ?thesis
    unfolding id_group_def id_segment_def by (auto simp: matches_Rep_Class)
qed

lemma tail_group_iff:
  "matches (Seq tail_group Eol) s t \<longleftrightarrow> (\<exists>x. s = x @ t \<and> no_newline x \<and> at_eol t)"
proof -
  have "[] @ t = t \<and> no_newline []" by (simp add: no_newline_def)
  then show ?thesis
    unfolding tail_group_def
    by (auto simp: matches_Seq_iff matches_Opt_iff matches_Eol_iff matches_Star_Dot)
qed

lemma marker_iff:
  "marker m \<longleftrightarrow>
     m \<in> set fixed_markers \<or> (\<exists>x. x \<noteq> [] \<and> no_newline x \<and> m = x @ ''?v='')"
proof -
  have "(3 < length m \<and> drop (length m - 3) m = ''?v='' \<and> no_newline (take (length m - 3) m))
        \<longleftrightarrow> (\<exists>x. x \<noteq> [] \<and> no_newline x \<and> m = x @ ''?v='')" (is "?L \<longleftrightarrow> ?R")
  proof
    assume l: ?L
    have "take (length m - 3) m @ drop (length m - 3) m = m" by (rule append_take_drop_id)
    with l have "m = take (length m - 3) m @ ''?v=''" by simp
    moreover from l have "take (length m - 3) m \<noteq> []" by auto
    ultimately show ?R using l by blast
  next
    assume ?R
    then obtain x where "x \<noteq> []" "no_newline x" "m = x @ ''?v=''" by blast
    then show ?L by (cases x) auto
  qed
  then show ?thesis by (simp add: marker_def)
qed

lemma marker_group_iff: "matches marker_group s t \<longleftrightarrow> (\<exists>m. marker m \<and> s = m @ t)"
proof
  assume "matches marker_group s t"
  then consider "s = t" | "s = ''watch?v='' @ t" | "s = ''embed/'' @ t" | "s = ''v/'' @ t"
    | x where "x \<noteq> []" "no_newline x" "s = x @ ''?v='' @ t"
    unfolding marker_group_def
    by (auto simp: matches_Opt_iff matches_Alt_iff matches_Seq_iff matches_Lit_iff matches_Plus_Dot)
  then show "\<exists>m. marker m \<and> s = m @ t"
  proof cases
    case 1
    then have "marker [] \<and> s = [] @ t" by (simp add: marker_iff fixed_markers_def)
    then show ?thesis by blast
  next
    case 2
    then have "marker ''watch?v='' \<and> s = ''watch?v='' @ t" by (simp add: marker_iff fixed_markers_def)
    then show ?thesis by blast
  next
    case 3
    then have "marker ''embed/'' \<and> s = ''embed/'' @ t" by (simp add: marker_iff fixed_markers_def)
    then show ?thesis by blast
  next
    case 4
    then have "marker ''v/'' \<and> s = ''v/'' @ t" by (simp add: marker_iff fixed_markers_def)
    then show ?thesis by blast
  next
    case 5
    then have "marker (x @ ''?v='') \<and> s = (x @ ''?v='') @ t"
      unfolding marker_iff by auto
    then show ?thesis by blast
  qed
next
  assume "\<exists>m. marker m \<and> s = m @ t"
  then obtain m where m: "marker m" "s = m @ t" by blast
  from m(1) consider "m \<in> set fixed_markers"
    | x where "x \<noteq> []" "no_newline x" "m = x @ ''?v=''"
    unfolding marker_iff by blast
  then show "matches marker_group s t"
  proof cases
    case 1
    with m(2) show ?thesis
      unfolding marker_group_def fixed_markers_def
      by (auto simp: matches_Opt_iff matches_Alt_iff matches_Lit_iff)
  next
    case 2
    have "matches (Plus Dot) s (''?v='' @ t)" using 2 m(2) by (auto simp: matches_Plus_Dot)
    then have "matches (Seq (Plus Dot) (Lit ''?v='')) s t"
      by (auto simp: matches_Seq_iff matches_Lit_iff)
    then show ?thesis
      unfolding marker_group_def by (simp add: matches_Opt_iff matches_Alt_iff)
  qed
qed

lemma youtube_regex_iff:
  "matches youtube_regex s t \<longleftrightarrow>
     (\<exists>sch \<in> set schemes. \<exists>w \<in> set subdomains. \<exists>h \<in> set hosts. \<exists>m v x.
        s = sch @ w @ h @ ''/'' @ m @ v @ x @ t \<and> marker m \<and> id_segment v \<and> no_newline x \<and> at_eol t)"
  unfolding youtube_regex_def
  by (simp add: matches_Seq_iff[of scheme_group] matches_Seq_iff[of www_group]
        matches_Seq_iff[of host_group] matches_Seq_iff[of "Lit w" for w]
        matches_Seq_iff[of marker_group] matches_Seq_iff[of id_group]
        scheme_group_iff www_group_iff host_group_iff matches_Lit_iff marker_group_iff
        id_group_iff tail_group_iff) blast

lemma valid_url_iff:
  "valid_url s \<longleftrightarrow>
     (\<exists>sch \<in> set schemes. \<exists>w \<in> set subdomains. \<exists>h \<in> set hosts. \<exists>m v x t.
        s = sch @ w @ h @ ''/'' @ m @ v @ x @ t \<and> marker m \<and> id_segment v \<and> no_newline x \<and> at_eol t)"
  unfolding valid_url_def re_match_iff youtube_regex_iff by blast

lemma valid_urlI:
  assumes "sch \<in> set schemes" "w \<in> set subdomains" "h \<in> set hosts"
    and "marker m" "id_segment v" "no_newline x" "at_eol t"
  shows "valid_url (sch @ w @ h @ ''/'' @ m @ v @ x @ t)"
  unfolding valid_url_iff using assms by blast

lemma take_eq_iff: "take (length pre) p = pre \<longleftrightarrow> (\<exists>m. p = pre @ m)"
proof
  assume a: "take (length pre) p = pre"
  have "take (length pre) p @ drop (length pre) p = p" by (rule append_take_drop_id)
  with a have "p = pre @ drop (length pre) p" by simp
  then show "\<exists>m. p = pre @ m" ..
next
  assume "\<exists>m. p = pre @ m"
  then show "take (length pre) p = pre" by auto
qed

lemma set_heads:
  "set heads = {sch @ w @ h @ ''/'' | sch w h. sch \<in> set schemes \<and> w \<in> set subdomains \<and> h \<in> set hosts}"
  unfolding heads_def by auto

lemma id_position_iff:
  "id_position p \<longleftrightarrow>
     (\<exists>sch \<in> set schemes. \<exists>w \<in> set subdomains. \<exists>h \<in> set hosts. \<exists>m.
        p = sch @ w @ h @ ''/'' @ m \<and> marker m)"
proof
  assume "id_position p"
  then obtain pre where pre: "pre \<in> set heads" "take (length pre) p = pre" "marker (drop (length pre) p)"
    unfolding id_position_def list_ex_iff by blast
  from pre(1) obtain sch w h where shw: "sch \<in> set schemes" "w \<in> set subdomains" "h \<in> set hosts"
    "pre = sch @ w @ h @ ''/''" unfolding set_heads by blast
  have "take (length pre) p @ drop (length pre) p = p" by (rule append_take_drop_id)
  with pre(2) have "p = pre @ drop (length pre) p" by simp
  with shw(4) have "p = sch @ w @ h @ ''/'' @ drop (length pre) p" by simp
  with shw pre(3) show "\<exists>sch \<in> set schemes. \<exists>w \<in> set subdomains. \<exists>h \<in> set hosts. \<exists>m.
        p = sch @ w @ h @ ''/'' @ m \<and> marker m" by blast
next
  assume "\<exists>sch \<in> set schemes. \<exists>w \<in> set subdomains. \<exists>h \<in> set hosts. \<exists>m.
        p = sch @ w @ h @ ''/'' @ m \<and> marker m"
  then obtain sch w h m where a: "sch \<in> set schemes" "w \<in> set subdomains" "h \<in> set hosts"
    "p = sch @ w @ h @ ''/'' @ m" "marker m" by blast
  define pre where "pre = sch @ w @ h @ ''/''"
  have "pre \<in> set heads" unfolding set_heads pre_def using a by blast
  moreover have "p = pre @ m" by (simp add: pre_def a(4))
  then have "take (length pre) p = pre \<and> marker (drop (length pre) p)" using a(5) by simp
  ultimately show "id_position p" unfolding id_position_def list_ex_iff by blast
qed

lemma has_id_segment_iff:
  "has_id_segment s \<longleftrightarrow> (\<exists>p v rest. s = p @ v @ rest \<and> id_position p \<and> id_segment v)"
proof
  assume "has_id_segment s"
  then obtain i where i: "id_position (take i s)" "id_segment (take 11 (drop i s))"
    unfolding has_id_segment_def list_ex_iff by blast
  have "take 11 (drop i s) @ drop 11 (drop i s) = drop i s" by (rule append_take_drop_id)
  moreover have "take i s @ drop i s = s" by (rule append_take_drop_id)
  ultimately have "s = take i s @ take 11 (drop i s) @ drop 11 (drop i s)" by metis
  with i show "\<exists>p v rest. s = p @ v @ rest \<and> id_position p \<and> id_segment v" by blast
next
  assume "\<exists>p v rest. s = p @ v @ rest \<and> id_position p \<and> id_segment v"
  then obtain p v rest where a: "s = p @ v @ rest" "id_position p" "id_segment v" by blast
  from a(3) have "length v = 11" by (simp add: id_segment_def)
  then have "take (length p) s = p" "take 11 (drop (length p) s) = v" using a(1) by auto
  moreover have "length p \<in> set [0..<Suc (length s)]" using a(1) by simp
  ultimately show "has_id_segment s"
    unfolding has_id_segment_def list_ex_iff using a(2,3) by metis
qed

lemma valid_url_has_id_segment: "valid_url s \<Longrightarrow> has_id_segment s"
proof -
  assume "valid_url s"
  then obtain sch w h m v x t where a: "sch \<in> set schemes" "w \<in> set subdomains" "h \<in> set hosts"
    "s = sch @ w @ h @ ''/'' @ m @ v @ x @ t" "marker m" "id_segment v"
    unfolding valid_url_iff by blast
  have "id_position (sch @ w @ h @ ''/'' @ m)" unfolding id_position_iff using a by blast
  moreover have "s = (sch @ w @ h @ ''/'' @ m) @ v @ (x @ t)" using a(4) by simp
  ultimately show ?thesis unfolding has_id_segment_iff using a(6) by blast
qed

text \<open>
  Claim C3. A string with no 11-character identifier segment (characters of
  \<open>[a-zA-Z0-9_-]\<close>) in a recognised position is rejected by the URL validator.
\<close>

theorem validator_rejects_without_id_segment: "\<not> has_id_segment s \<Longrightarrow> \<not> valid_url s"
  using valid_url_has_id_segment by blast

text \<open>
  Claim C7. For every 11-character identifier, the validator accepts the watch form, the
  short \<open>youtu.be\<close> form and the scheme-less embed form.
\<close>

theorem validator_accepts_three_forms:
  "id_segment v \<Longrightarrow>
     valid_url (''https://www.youtube.com/watch?v='' @ v) \<and>
     valid_url (''https://youtu.be/'' @ v) \<and>
     valid_url (''youtube.com/embed/'' @ v)"
proof -
  assume v: "id_segment v"
  have e: "no_newline []" "at_eol []" by (simp_all add: no_newline_def at_eol_def)
  have "valid_url (''https://'' @ ''www.'' @ ''youtube.com'' @ ''/'' @ ''watch?v='' @ v @ [] @ [])"
    by (rule valid_urlI) (simp_all add: schemes_def subdomains_def hosts_def marker_def fixed_markers_def v e)
  moreover have "valid_url (''https://'' @ [] @ ''youtu.be'' @ ''/'' @ [] @ v @ [] @ [])"
    by (rule valid_urlI) (simp_all add: schemes_def subdomains_def hosts_def marker_def fixed_markers_def v e)
  moreover have "valid_url ([] @ [] @ ''youtube.com'' @ ''/'' @ ''embed/'' @ v @ [] @ [])"
    by (rule valid_urlI) (simp_all add: schemes_def subdomains_def hosts_def marker_def fixed_markers_def v e)
  ultimately show ?thesis by simp
qed

theorem validator_rejects_without_id_segment_witness:
  "\<not> has_id_segment ''not a url'' \<and> \<not> valid_url ''not a url'' \<and>
   \<not> has_id_segment ''https://example.com/watch?v=AAAAAAAAAAA'' \<and>
   \<not> valid_url ''https://example.com/watch?v=AAAAAAAAAAA''"
proof -
  have a: "\<not> has_id_segment ''not a url''" by code_simp
  have b: "\<not> has_id_segment ''https://example.com/watch?v=AAAAAAAAAAA''" by code_simp
  show ?thesis using a b validator_rejects_without_id_segment[OF a] validator_rejects_without_id_segment[OF b] by simp
qed

theorem validator_accepts_three_forms_witness:
  "id_segment ''dQw4w9WgXcQ'' \<and>
   valid_url ''https://www.youtube.com/watch?v=dQw4w9WgXcQ'' \<and>
   valid_url ''https://youtu.be/dQw4w9WgXcQ'' \<and>
   valid_url ''youtube.com/embed/dQw4w9WgXcQ''"
proof -
  have a: "id_segment ''dQw4w9WgXcQ''" by code_simp
  show ?thesis using a validator_accepts_three_forms[OF a] by simp
qed

section \<open>The gate bounds the running workers\<close>

lemma count_update:
  "i < length xs \<Longrightarrow>
     length (filter P (xs[i := y])) + (if P (xs ! i) then 1 else 0)
       = length (filter P xs) + (if P y then 1 else 0)"
proof (induction xs arbitrary: i)
  case Nil
  then show ?case by simp
next
  case (Cons x xs)
  show ?case
  proof (cases i)
    case 0
    then show ?thesis by simp
  next
    case (Suc j)
    with Cons.prems have "j < length xs" by simp
    from Cons.IH[OF this] Suc show ?thesis by simp
  qed
qed

lemma step_balanced:
  assumes "step a s = Some s'" and "balanced k s"
  shows "balanced k s'"
proof (cases a)
  case Dispatch
  with assms show ?thesis by (auto simp: balanced_def holders_def holding_def)
next
  case (Enter i)
  with assms have p: "i < length (workers s)" "workers s ! i = Waiting" and v: "sem_value (gate s) \<noteq> 0"
    and s': "s' = s\<lparr>gate := (gate s)\<lparr>sem_value := sem_value (gate s) - 1\<rparr>, workers := (workers s)[i := Probing]\<rparr>"
    by (auto simp: at_phase_def acquire_def locked_def split: if_splits option.splits)
  from count_update[OF p(1), of holding Probing] p(2)
  have "length (filter holding ((workers s)[i := Probing])) = length (filter holding (workers s)) + 1"
    by (simp add: holding_def)
  with assms(2) v show ?thesis by (simp add: balanced_def holders_def s')
next
  case (ProbeEnds i goes_on)
  with assms have p: "i < length (workers s)" "workers s ! i = Probing"
    by (auto simp: at_phase_def split: if_splits)
  show ?thesis
  proof (cases goes_on)
    case True
    with assms ProbeEnds p have s': "s' = s\<lparr>workers := (workers s)[i := Fetching]\<rparr>"
      by (auto simp: at_phase_def)
    from count_update[OF p(1), of holding Fetching] p(2)
    have "length (filter holding ((workers s)[i := Fetching])) = length (filter holding (workers s))"
      by (simp add: holding_def)
    with assms(2) show ?thesis by (simp add: balanced_def holders_def s')
  next
    case False
    with assms ProbeEnds p have s': "s' = s\<lparr>gate := release (gate s), workers := (workers s)[i := Finished]\<rparr>"
      by (auto simp: at_phase_def)
    from count_update[OF p(1), of holding Finished] p(2)
    have "length (filter holding ((workers s)[i := Finished])) + 1 = length (filter holding (workers s))"
      by (simp add: holding_def)
    with assms(2) show ?thesis by (simp add: balanced_def holders_def s' release_def)
  qed
next
  case (FetchEnds i)
  with assms have p: "i < length (workers s)" "workers s ! i = Fetching"
    and s': "s' = s\<lparr>gate := release (gate s), workers := (workers s)[i := Finished]\<rparr>"
    by (auto simp: at_phase_def split: if_splits)
  from count_update[OF p(1), of holding Finished] p(2)
  have "length (filter holding ((workers s)[i := Finished])) + 1 = length (filter holding (workers s))"
    by (simp add: holding_def)
  with assms(2) show ?thesis by (simp add: balanced_def holders_def s' release_def)
qed

lemma run_balanced: "run as s = Some s' \<Longrightarrow> balanced k s \<Longrightarrow> balanced k s'"
proof (induction as arbitrary: s)
  case Nil
  then show ?case by simp
next
  case (Cons a as)
  then obtain s1 where s1: "step a s = Some s1" "run as s1 = Some s'"
    by (auto split: option.splits)
  from step_balanced[OF s1(1) Cons.prems(2)] Cons.IH[OF s1(2)] show ?case by simp
qed

lemma initial_balanced: "balanced k (initial k)"
  by (simp add: balanced_def initial_def holders_def Semaphore_def)

lemma fetching_le_holders: "fetching s \<le> holders s"
proof -
  have "filter (\<lambda>p. p = Fetching) (workers s) = filter (\<lambda>p. p = Fetching) (filter holding (workers s))"
    by (auto simp: holding_def intro: filter_cong)
  then have "fetching s = length (filter (\<lambda>p. p = Fetching) (filter holding (workers s)))"
    by (simp add: fetching_def)
  also have "\<dots> \<le> holders s" unfolding holders_def by (rule length_filter_le)
  finally show ?thesis .
qed

lemma lone_worker:
  "0 < k \<Longrightarrow>
     run [Dispatch, Enter 0, ProbeEnds 0 True, FetchEnds 0] (initial k)
       = Some \<lparr>gate = Semaphore k, workers = [Finished]\<rparr>"
  by (simp add: initial_def at_phase_def acquire_def release_def locked_def Semaphore_def)

text \<open>
  Claim C1. In every state the system can reach from a gate of \<open>k\<close> slots, whatever the
  number of workers dispatched and the order of their steps, at most \<open>k\<close> workers hold a
  slot, and so at most \<open>k\<close> fetches are running.
\<close>

theorem gate_never_exceeds_capacity:
  "run as (initial k) = Some s \<Longrightarrow> holders s \<le> k \<and> fetching s \<le> k"
proof -
  assume "run as (initial k) = Some s"
  from run_balanced[OF this initial_balanced] have "holders s + sem_value (gate s) = k"
    by (simp add: balanced_def)
  then have "holders s \<le> k" by simp
  with fetching_le_holders[of s] show ?thesis by simp
qed

theorem gate_never_exceeds_capacity_witness:
  "run [Dispatch, Dispatch, Dispatch, Dispatch, Enter 0, Enter 1, Enter 2, ProbeEnds 0 True]
       (initial MAX_CONCURRENT_DOWNLOADS)
     = Some \<lparr>gate = Semaphore 0, workers = [Fetching, Probing, Probing, Waiting]\<rparr>
   \<and> holders \<lparr>gate = Semaphore 0, workers = [Fetching, Probing, Probing, Waiting]\<rparr> \<le> MAX_CONCURRENT_DOWNLOADS
   \<and> fetching \<lparr>gate = Semaphore 0, workers = [Fetching, Probing, Probing, Waiting]\<rparr> \<le> MAX_CONCURRENT_DOWNLOADS
   \<and> step (Enter 3) \<lparr>gate = Semaphore 0, workers = [Fetching, Probing, Probing, Waiting]\<rparr> = None"
proof -
  have r: "run [Dispatch, Dispatch, Dispatch, Dispatch, Enter 0, Enter 1, Enter 2, ProbeEnds 0 True]
       (initial MAX_CONCURRENT_DOWNLOADS)
     = Some \<lparr>gate = Semaphore 0, workers = [Fetching, Probing, Probing, Waiting]\<rparr>"
    by (simp add: initial_def MAX_CONCURRENT_DOWNLOADS_def at_phase_def acquire_def locked_def
        Semaphore_def)
  have b: "step (Enter 3) \<lparr>gate = Semaphore 0, workers = [Fetching, Probing, Probing, Waiting]\<rparr> = None"
    by (simp add: at_phase_def acquire_def locked_def Semaphore_def)
  show ?thesis using r b gate_never_exceeds_capacity[OF r] by simp
qed

section \<open>Every slot taken is given back\<close>














section \<open>One run of the worker\<close>

lemma task_unlocked:
  "\<not> locked sem \<Longrightarrow>
     download_video_task e url path rid sem =
       Some (Acquire # fst (guarded_block e url path) @ [Release],
             (case snd (guarded_block e url path) of Inl ex \<Rightarrow> handlers ex | Inr res \<Rightarrow> Inr res),
             sem)"
  by (cases sem) (simp add: download_video_task_def async_with_def acquire_def release_def locked_def)

lemma task_locked: "locked sem \<Longrightarrow> download_video_task e url path rid sem = None"
  by (simp add: download_video_task_def async_with_def acquire_def)

lemma block_events:
  "fst (guarded_block e url path) = [Probe url] \<or>
   (\<exists>tmpl. fst (guarded_block e url path) = [Probe url, Fetch url tmpl])"
  by (auto simp: guarded_block_def Let_def split: sum.splits)

text \<open>One run of the worker follows the steps of the system above, on the same semaphore.\<close>

lemma task_follows_steps:
  assumes "download_video_task e url path rid sem = Some (trace, r, sem')"
  shows "run (Enter 0 # (if filter is_fetch trace = [] then [ProbeEnds 0 False]
                         else [ProbeEnds 0 True, FetchEnds 0]))
             \<lparr>gate = sem, workers = [Waiting]\<rparr>
           = Some \<lparr>gate = sem', workers = [Finished]\<rparr>"
proof -
  from assms obtain held where h: "acquire sem = Some held" "sem' = release held"
    by (auto simp: download_video_task_def async_with_def split: option.splits)
  then show ?thesis by (simp add: at_phase_def)
qed

text \<open>
  Claim C4. When the probe reports a duration above the ceiling, the worker returns the
  error outcome "Video duration exceeds the allowed limit." and no fetch is made.
\<close>

theorem over_long_video_is_not_fetched:
  "\<not> locked sem \<Longrightarrow> probe e url = Inr info \<Longrightarrow> duration info = Some d \<Longrightarrow>
   d > MAX_VIDEO_DURATION_SECONDS \<Longrightarrow>
     \<exists>trace. download_video_task e url path rid sem = Some (trace, Inr duration_error, sem) \<and>
       filter is_fetch trace = []"
proof -
  assume u: "\<not> locked sem" and p: "probe e url = Inr info" and d: "duration info = Some d"
    and gt: "d > MAX_VIDEO_DURATION_SECONDS"
  from gt have "d \<noteq> 0" by (simp add: MAX_VIDEO_DURATION_SECONDS_def)
  with d gt have "exceeds_limit (duration info)" by (simp add: exceeds_limit_def)
  with p have b: "guarded_block e url path = ([Probe url], Inr duration_error)"
    by (simp add: guarded_block_def duration_error_def)
  have "filter is_fetch [Acquire, Probe url, Release] = []" by (simp add: is_fetch_def)
  with task_unlocked[OF u, of e url path rid] b show ?thesis by simp
qed

theorem over_long_video_is_not_fetched_witness:
  "\<not> locked (Semaphore 3) \<and>
   probe long_video_env ''https://youtu.be/dQw4w9WgXcQ'' = Inr \<lparr>duration = Some 4000, title = Some ''Long talk''\<rparr> \<and>
   (4000::int) > MAX_VIDEO_DURATION_SECONDS \<and>
   download_video_task long_video_env ''https://youtu.be/dQw4w9WgXcQ'' DOWNLOAD_DIR ''1a2b3c4d''
       (Semaphore 3)
     = Some ([Acquire, Probe ''https://youtu.be/dQw4w9WgXcQ'', Release], Inr duration_error,
             Semaphore 3)"
proof -
  have u: "\<not> locked (Semaphore 3)" by (simp add: locked_def Semaphore_def)
  have p: "probe long_video_env ''https://youtu.be/dQw4w9WgXcQ''
             = Inr \<lparr>duration = Some 4000, title = Some ''Long talk''\<rparr>"
    by (simp add: long_video_env_def)
  have d: "duration \<lparr>duration = Some 4000, title = Some ''Long talk''\<rparr> = Some 4000" by simp
  have g: "(4000::int) > MAX_VIDEO_DURATION_SECONDS" by (simp add: MAX_VIDEO_DURATION_SECONDS_def)
  from over_long_video_is_not_fetched[OF u p d g, of DOWNLOAD_DIR "''1a2b3c4d''"] obtain trace where
    t: "download_video_task long_video_env ''https://youtu.be/dQw4w9WgXcQ'' DOWNLOAD_DIR ''1a2b3c4d''
       (Semaphore 3) = Some (trace, Inr duration_error, Semaphore 3)" by blast
  have "download_video_task long_video_env ''https://youtu.be/dQw4w9WgXcQ'' DOWNLOAD_DIR ''1a2b3c4d''
       (Semaphore 3)
     = Some ([Acquire, Probe ''https://youtu.be/dQw4w9WgXcQ'', Release], Inr duration_error,
             Semaphore 3)"
    by code_simp
  with u p g t show ?thesis by simp
qed

text \<open>
  Claim C10 says that a run ending in any exception other than \<open>DownloadError\<close> has the
  fixed-message error outcome. An exception outside the \<open>Exception\<close> hierarchy is not
  caught by \<open>except Exception\<close>: the run below ends with the interrupt escaping, and
  there is no outcome.
\<close>

theorem escaping_exception_has_no_outcome:
  "snd (guarded_block interrupted_env ''https://youtu.be/dQw4w9WgXcQ'' DOWNLOAD_DIR)
     = Inl (BaseException ''KeyboardInterrupt'') \<and>
   download_video_task interrupted_env ''https://youtu.be/dQw4w9WgXcQ'' DOWNLOAD_DIR ''1a2b3c4d''
       (Semaphore 3)
     = Some ([Acquire, Probe ''https://youtu.be/dQw4w9WgXcQ'', Release],
             Inl (BaseException ''KeyboardInterrupt''), Semaphore 3)"
  by code_simp

text \<open>
  Claim C10, amended. When the guarded block raises an exception derived from
  \<open>Exception\<close> that is not a \<open>DownloadError\<close>, the outcome is the error with the fixed
  message, whatever the exception says; a \<open>DownloadError\<close> gives an error outcome that
  carries the library's message; any other exception escapes the worker unchanged.
\<close>

theorem unexpected_error_message_is_fixed:
  "\<not> locked sem \<Longrightarrow>
     (snd (guarded_block e url path) = Inl (Exception m) \<longrightarrow>
        (\<exists>trace. download_video_task e url path rid sem = Some (trace, Inr unexpected_error, sem))) \<and>
     (snd (guarded_block e url path) = Inl (DownloadError m) \<longrightarrow>
        (\<exists>trace. download_video_task e url path rid sem
           = Some (trace, Inr \<lparr>status = ''error'', message = ''Failed to download video: '' @ m\<rparr>, sem))) \<and>
     (snd (guarded_block e url path) = Inl (BaseException m) \<longrightarrow>
        (\<exists>trace. download_video_task e url path rid sem = Some (trace, Inl (BaseException m), sem)))"
proof -
  assume u: "\<not> locked sem"
  show ?thesis using task_unlocked[OF u, of e url path rid]
    by (simp add: unexpected_error_def)
qed

theorem unexpected_error_message_is_fixed_witness:
  "\<not> locked (Semaphore 2) \<and>
   snd (guarded_block failing_fetch_env ''https://youtu.be/dQw4w9WgXcQ'' DOWNLOAD_DIR)
     = Inl (Exception ''disk full'') \<and>
   (\<exists>trace. download_video_task failing_fetch_env ''https://youtu.be/dQw4w9WgXcQ'' DOWNLOAD_DIR
       ''1a2b3c4d'' (Semaphore 2) = Some (trace, Inr unexpected_error, Semaphore 2))"
proof -
  have u: "\<not> locked (Semaphore 2)" by (simp add: locked_def Semaphore_def)
  have b: "snd (guarded_block failing_fetch_env ''https://youtu.be/dQw4w9WgXcQ'' DOWNLOAD_DIR)
     = Inl (Exception ''disk full'')"
    by code_simp
  show ?thesis
    using u b unexpected_error_message_is_fixed[OF u, of failing_fetch_env "''https://youtu.be/dQw4w9WgXcQ''" DOWNLOAD_DIR
        "''disk full''" "''1a2b3c4d''"]
    by blast
qed

section \<open>Filename derivation\<close>

lemma in_class_singletons: "in_class (map (\<lambda>c. (c, c)) cs) c \<longleftrightarrow> c \<in> set cs"
proof -
  have "(of_char x :: nat) \<le> of_char c \<and> (of_char c :: nat) \<le> of_char x \<longleftrightarrow> x = c" for x
  proof
    assume "(of_char x :: nat) \<le> of_char c \<and> (of_char c :: nat) \<le> of_char x"
    then have "(of_char x :: nat) = of_char c" by (rule_tac antisym) simp_all
    then show "x = c" by (rule of_char_eqI)
  next
    assume "x = c"
    then show "(of_char x :: nat) \<le> of_char c \<and> (of_char c :: nat) \<le> of_char x" by simp
  qed
  then show ?thesis by (auto simp: in_class_def list_ex_iff)
qed

lemma re_match_Class_single: "re_match (Class rs) [c] \<longleftrightarrow> in_class rs c"
  by (simp add: re_match_def)

lemma sanitized_title_map:
  "sanitized_title t = map (\<lambda>c. if c \<in> set unsafe_chars then CHR ''_'' else c) t"
proof -
  have "re_sub_class rs [x] s = map (\<lambda>c. if in_class rs c then x else c) s" for rs x s
    by (induction s) (simp_all add: re_sub_class_def re_match_Class_single)
  then show ?thesis
    by (simp add: sanitized_title_def unsafe_class_def in_class_singletons)
qed

lemma underscore_safe: "CHR ''_'' \<notin> set unsafe_chars"
  by (simp add: unsafe_chars_def)

lemma sanitized_title_safe: "set (sanitized_title t) \<inter> set unsafe_chars = {}"
  using underscore_safe by (auto simp: sanitized_title_map)

text \<open>
  Claim C9. Filename derivation replaces every occurrence of each of the nine characters
  \<open>< > : " / \ | ? *\<close> of the title by an underscore and keeps every other character, so
  none of the nine is left; the file name is the sanitized title, an underscore, the unique
  suffix, and then the extension placeholder.
\<close>

theorem title_is_sanitized_and_suffixed:
  "sanitized_title t = map (\<lambda>c. if c \<in> set unsafe_chars then CHR ''_'' else c) t \<and>
   set (sanitized_title t) \<inter> set unsafe_chars = {} \<and>
   unique_filename t hex = sanitized_title t @ ''_'' @ hex @ ''.%(ext)s''"
  using sanitized_title_map[of t] sanitized_title_safe[of t] by (simp add: unique_filename_def)

theorem title_is_sanitized_and_suffixed_witness:
  "sanitized_title ''AC/DC: Who Made Who? *live* <1986>|x'' = ''AC_DC_ Who Made Who_ _live_ _1986__x'' \<and>
   unique_filename ''AC/DC: Who Made Who? *live* <1986>|x'' ''0123456789abcdef0123456789abcdef''
     = ''AC_DC_ Who Made Who_ _live_ _1986__x_0123456789abcdef0123456789abcdef.%(ext)s''"
proof -
  have "map (\<lambda>c. if c \<in> set unsafe_chars then CHR ''_'' else c) ''AC/DC: Who Made Who? *live* <1986>|x''
          = ''AC_DC_ Who Made Who_ _live_ _1986__x''"
    by (simp add: unsafe_chars_def)
  then show ?thesis
    using title_is_sanitized_and_suffixed[of "''AC/DC: Who Made Who? *live* <1986>|x''" "''0123456789abcdef0123456789abcdef''"]
    by simp
qed

lemma unique_filename_head:
  "\<exists>c rest. unique_filename t hex = c # rest \<and> c \<noteq> CHR ''/''"
proof (cases "sanitized_title t")
  case Nil
  then show ?thesis by (simp add: unique_filename_def)
next
  case (Cons c rest)
  then have "c \<in> set (sanitized_title t)" by simp
  moreover have "CHR ''/'' \<in> set unsafe_chars" by (simp add: unsafe_chars_def)
  ultimately have "c \<noteq> CHR ''/''" using sanitized_title_safe[of t] by blast
  with Cons show ?thesis by (simp add: unique_filename_def)
qed

lemma outtmpl_append:
  "\<exists>dir. \<forall>t hex. outtmpl path t hex = dir @ unique_filename t hex"
proof -
  define dir where "dir = (if path = [] \<or> last path = CHR ''/'' then path else path @ ''/'')"
  have "outtmpl path t hex = dir @ unique_filename t hex" for t hex
  proof -
    from unique_filename_head[of t hex] obtain c rest
      where "unique_filename t hex = c # rest" "c \<noteq> CHR ''/''" by blast
    then show ?thesis by (simp add: outtmpl_def os_path_join_def dir_def)
  qed
  then show ?thesis by blast
qed

lemma unique_filename_inj: "unique_filename t h1 = unique_filename t h2 \<Longrightarrow> h1 = h2"
  by (simp add: unique_filename_def)

lemma outtmpl_inj: "outtmpl path t h1 = outtmpl path t h2 \<Longrightarrow> h1 = h2"
proof -
  assume a: "outtmpl path t h1 = outtmpl path t h2"
  from outtmpl_append[of path] obtain dir
    where "\<And>t hex. outtmpl path t hex = dir @ unique_filename t hex" by blast
  with a have "unique_filename t h1 = unique_filename t h2" by simp
  then show ?thesis by (rule unique_filename_inj)
qed

lemma block_templates:
  "fetch_templates (fst (guarded_block e url path)) = [] \<or>
   fetch_templates (fst (guarded_block e url path))
     = [outtmpl path (case probe e url of Inr info \<Rightarrow> video_title info | Inl ex \<Rightarrow> []) (uuid4_hex e)]"
  by (auto simp: guarded_block_def fetch_templates_def Let_def split: sum.splits)

text \<open>
  Claim C8 says that two dispatches reporting the same title derive distinct file names.
  The suffix is a random draw of \<open>uuid4\<close>, and nothing in the worker compares it with
  earlier ones: when the draws of two dispatches come out the same, so do the names.
\<close>

theorem same_suffix_same_filename:
  "probe failing_fetch_env ''https://youtu.be/dQw4w9WgXcQ''
     = probe colliding_env ''https://youtu.be/dQw4w9WgXcQ'' \<and>
   fetch_templates (fst (guarded_block failing_fetch_env ''https://youtu.be/dQw4w9WgXcQ'' DOWNLOAD_DIR))
     = [''downloads/Never Gonna Give You Up_0123456789abcdef0123456789abcdef.%(ext)s''] \<and>
   fetch_templates (fst (guarded_block colliding_env ''https://youtu.be/dQw4w9WgXcQ'' DOWNLOAD_DIR))
     = [''downloads/Never Gonna Give You Up_0123456789abcdef0123456789abcdef.%(ext)s'']"
proof -
  have p: "probe failing_fetch_env ''https://youtu.be/dQw4w9WgXcQ''
     = probe colliding_env ''https://youtu.be/dQw4w9WgXcQ''"
    by (simp add: failing_fetch_env_def colliding_env_def)
  have a: "fetch_templates (fst (guarded_block failing_fetch_env ''https://youtu.be/dQw4w9WgXcQ'' DOWNLOAD_DIR))
     = [''downloads/Never Gonna Give You Up_0123456789abcdef0123456789abcdef.%(ext)s'']"
    by code_simp
  have b: "fetch_templates (fst (guarded_block colliding_env ''https://youtu.be/dQw4w9WgXcQ'' DOWNLOAD_DIR))
     = [''downloads/Never Gonna Give You Up_0123456789abcdef0123456789abcdef.%(ext)s'']"
    by code_simp
  from p a b show ?thesis by simp
qed

text \<open>
  Claim C8, amended. Two dispatches whose probes report the same title and whose unique
  suffixes differ derive different file names, and the output templates they hand to the
  fetch are different.
\<close>

theorem same_title_distinct_filenames:
  assumes "probe e1 url1 = Inr info1" and "probe e2 url2 = Inr info2"
    and "title info1 = title info2" and "uuid4_hex e1 \<noteq> uuid4_hex e2"
  shows "unique_filename (video_title info1) (uuid4_hex e1)
           \<noteq> unique_filename (video_title info2) (uuid4_hex e2) \<and>
         set (fetch_templates (fst (guarded_block e1 url1 path)))
           \<inter> set (fetch_templates (fst (guarded_block e2 url2 path))) = {}"
proof -
  from assms(3) have t: "video_title info1 = video_title info2" by (simp add: video_title_def)
  from assms(4) have a: "unique_filename (video_title info1) (uuid4_hex e1)
           \<noteq> unique_filename (video_title info2) (uuid4_hex e2)"
    unfolding t using unique_filename_inj by blast
  from assms(4) have b: "outtmpl path (video_title info1) (uuid4_hex e1)
           \<noteq> outtmpl path (video_title info2) (uuid4_hex e2)"
    unfolding t using outtmpl_inj by blast
  from block_templates[of e1 url1 path] block_templates[of e2 url2 path] b assms(1,2)
  have "set (fetch_templates (fst (guarded_block e1 url1 path)))
           \<inter> set (fetch_templates (fst (guarded_block e2 url2 path))) = {}"
    by auto
  with a show ?thesis by simp
qed

theorem same_title_distinct_filenames_witness:
  "fetch_templates (fst (guarded_block failing_fetch_env ''https://youtu.be/dQw4w9WgXcQ'' DOWNLOAD_DIR))
     = [''downloads/Never Gonna Give You Up_0123456789abcdef0123456789abcdef.%(ext)s''] \<and>
   fetch_templates (fst (guarded_block rickroll_env ''https://youtu.be/dQw4w9WgXcQ'' DOWNLOAD_DIR))
     = [''downloads/Never Gonna Give You Up_fedcba9876543210fedcba9876543210.%(ext)s''] \<and>
   set (fetch_templates (fst (guarded_block failing_fetch_env ''https://youtu.be/dQw4w9WgXcQ'' DOWNLOAD_DIR)))
     \<inter> set (fetch_templates (fst (guarded_block rickroll_env ''https://youtu.be/dQw4w9WgXcQ'' DOWNLOAD_DIR))) = {}"
proof -
  have p1: "probe failing_fetch_env ''https://youtu.be/dQw4w9WgXcQ''
              = Inr \<lparr>duration = Some 212, title = Some ''Never Gonna Give You Up''\<rparr>"
    by (simp add: failing_fetch_env_def)
  have p2: "probe rickroll_env ''https://youtu.be/dQw4w9WgXcQ''
              = Inr \<lparr>duration = Some 212, title = Some ''Never Gonna Give You Up''\<rparr>"
    by (simp add: rickroll_env_def)
  have h: "uuid4_hex failing_fetch_env \<noteq> uuid4_hex rickroll_env"
    by (simp add: failing_fetch_env_def rickroll_env_def)
  have a: "fetch_templates (fst (guarded_block failing_fetch_env ''https://youtu.be/dQw4w9WgXcQ'' DOWNLOAD_DIR))
     = [''downloads/Never Gonna Give You Up_0123456789abcdef0123456789abcdef.%(ext)s'']"
    by code_simp
  have b: "fetch_templates (fst (guarded_block rickroll_env ''https://youtu.be/dQw4w9WgXcQ'' DOWNLOAD_DIR))
     = [''downloads/Never Gonna Give You Up_fedcba9876543210fedcba9876543210.%(ext)s'']"
    by code_simp
  from same_title_distinct_filenames[OF p1 p2 refl h, of DOWNLOAD_DIR] a b show ?thesis by blast
qed

section \<open>The request handler\<close>

lemma handler_status_codes:
  "status_code (fst (download_video url rid st))
     = (if \<not> valid_url url then 400 else if locked (download_semaphore st) then 429 else 202) \<and>
   background_tasks (snd (download_video url rid st))
     = (if valid_url url \<and> \<not> locked (download_semaphore st)
        then background_tasks st @ [(url, DOWNLOAD_DIR, rid)] else background_tasks st)"
  by (simp add: download_video_def)

lemma handler_bodies:
  "field ''status'' (body (fst (download_video url rid st)))
     = (if valid_url url \<and> \<not> locked (download_semaphore st)
        then Some (JString ''processing'') else None)"
  by (simp add: download_video_def to_json_def)

text \<open>
  Claim C5 says that the 400 and the 429 answer have status "error" in their body. The
  status codes are as claimed, nothing is scheduled on those two paths, and the 202 answer
  has status "processing". But the handler raises \<open>HTTPException\<close> with the dictionary as
  \<open>detail\<close>, and that goes out under the key \<open>detail\<close>: the body of the 400 and of the
  429 answer has no \<open>status\<close> and no \<open>message\<close> at its top level, where the 202 answer
  has them and where the page reads them.
\<close>

theorem handler_error_body_is_nested:
  "status_code (fst (download_video ''not a url'' ''1a2b3c4d'' idle_app)) = 400 \<and>
   field ''status'' (body (fst (download_video ''not a url'' ''1a2b3c4d'' idle_app))) = None \<and>
   field ''message'' (body (fst (download_video ''not a url'' ''1a2b3c4d'' idle_app))) = None \<and>
   body (fst (download_video ''not a url'' ''1a2b3c4d'' idle_app))
     = JObject [(''detail'', JObject
         [(''message'', JString ''Invalid YouTube URL provided. Please enter a valid YouTube link (e.g., https://www.youtube.com/watch?v=example or https://youtu.be/example).''),
          (''status'', JString ''error'')])] \<and>
   status_code (fst (download_video ''https://youtu.be/dQw4w9WgXcQ'' ''1a2b3c4d'' busy_app)) = 429 \<and>
   field ''status'' (body (fst (download_video ''https://youtu.be/dQw4w9WgXcQ'' ''1a2b3c4d'' busy_app)))
     = None \<and>
   status_code (fst (download_video ''https://youtu.be/dQw4w9WgXcQ'' ''1a2b3c4d'' idle_app)) = 202 \<and>
   field ''status'' (body (fst (download_video ''https://youtu.be/dQw4w9WgXcQ'' ''1a2b3c4d'' idle_app)))
     = Some (JString ''processing'')"
proof -
  have bad: "\<not> valid_url ''not a url''" by code_simp
  have good: "valid_url ''https://youtu.be/dQw4w9WgXcQ''" by code_simp
  have busy: "locked (download_semaphore busy_app)"
    by (simp add: busy_app_def locked_def Semaphore_def)
  have idle: "\<not> locked (download_semaphore idle_app)"
    by (simp add: idle_app_def locked_def Semaphore_def)
  show ?thesis using bad good busy idle by (simp add: download_video_def to_json_def)
qed

text \<open>
  Claim C6. On none of its three paths does the handler change the semaphore: it only
  reads whether it is locked, so a later request is answered as if this one had not been.
\<close>

theorem handler_leaves_gate_alone:
  "download_semaphore (snd (download_video url rid st)) = download_semaphore st \<and>
   (\<forall>url2 rid2. fst (download_video url2 rid2 (snd (download_video url rid st)))
                  = fst (download_video url2 rid2 st))"
  by (simp add: download_video_def)

theorem handler_leaves_gate_alone_witness:
  "download_semaphore (snd (download_video ''not a url'' ''1a2b3c4d'' busy_app)) = Semaphore 0 \<and>
   download_semaphore (snd (download_video ''https://youtu.be/dQw4w9WgXcQ'' ''1a2b3c4d'' busy_app))
     = Semaphore 0 \<and>
   download_semaphore (snd (download_video ''https://youtu.be/dQw4w9WgXcQ'' ''1a2b3c4d'' idle_app))
     = Semaphore 3"
  using handler_leaves_gate_alone[of "''not a url''" "''1a2b3c4d''" busy_app]
    handler_leaves_gate_alone[of "''https://youtu.be/dQw4w9WgXcQ''" "''1a2b3c4d''" busy_app]
    handler_leaves_gate_alone[of "''https://youtu.be/dQw4w9WgXcQ''" "''1a2b3c4d''" idle_app]
  by (simp add: busy_app_def idle_app_def)

end
